theory Spec2Isabelle
  imports Main "HOL-Library.Sublist" "HOL-Library.Multiset"
begin

section \<open>Go strings and the functions of package strings that the program calls\<close>

text \<open>
  A Go string is a sequence of bytes, here a \<^typ>\<open>string\<close> (a list of \<^typ>\<open>char\<close>, one per
  byte); \<open>len\<close> is \<^const>\<open>length\<close>. The functions below are the ones
  \<open>controller-helmwave.go\<close> calls, with the meaning they have in Go's standard library.
\<close>

definition LF :: char where
  "LF = CHR 0x0A"

definition DQ :: char where
  "DQ = CHR 0x22"

definition SQ :: char where
  "SQ = CHR 0x27"

text \<open>\<open>strings.Split(text, "\n")\<close>: the pieces between line feeds, never an empty slice.\<close>

fun Split :: "string \<Rightarrow> string list" where
  "Split [] = [[]]"
| "Split (c # cs) =
     (if c = LF then [] # Split cs
      else (case Split cs of [] \<Rightarrow> [[c]] | l # ls \<Rightarrow> (c # l) # ls))"

text \<open>\<open>strings.Join(lines, "\n")\<close>.\<close>

fun Join :: "string list \<Rightarrow> string" where
  "Join [] = []"
| "Join [l] = l"
| "Join (l # m # ls) = l @ LF # Join (m # ls)"

text \<open>\<open>strings.HasPrefix\<close>, \<open>strings.TrimPrefix\<close>, \<open>strings.Contains\<close> for a one-byte
  substring, \<open>strings.Index\<close> for a one-byte substring (\<open>-1\<close> when absent).\<close>

definition HasPrefix :: "string \<Rightarrow> string \<Rightarrow> bool" where
  "HasPrefix s p = prefix p s"

definition TrimPrefix :: "string \<Rightarrow> string \<Rightarrow> string" where
  "TrimPrefix s p = (if HasPrefix s p then drop (length p) s else s)"

definition Contains :: "string \<Rightarrow> char \<Rightarrow> bool" where
  "Contains s c = (c \<in> set s)"

fun Index :: "string \<Rightarrow> char \<Rightarrow> int" where
  "Index [] c = - 1"
| "Index (x # xs) c =
     (if x = c then 0 else (let r = Index xs c in if r < 0 then - 1 else r + 1))"

text \<open>\<open>strings.TrimLeft\<close>, \<open>strings.TrimRight\<close> and \<open>strings.Trim\<close> with a cutset of ASCII
  bytes: bytes of the cutset are removed from the left end, the right end, or both.\<close>

definition TrimLeft :: "string \<Rightarrow> string \<Rightarrow> string" where
  "TrimLeft s cutset = dropWhile (\<lambda>c. c \<in> set cutset) s"

definition TrimRight :: "string \<Rightarrow> string \<Rightarrow> string" where
  "TrimRight s cutset = rev (dropWhile (\<lambda>c. c \<in> set cutset) (rev s))"

definition Trim :: "string \<Rightarrow> string \<Rightarrow> string" where
  "Trim s cutset = TrimLeft (TrimRight s cutset) cutset"

text \<open>
  \<open>strings.TrimSpace\<close> removes leading and trailing white space as Unicode defines it
  (\<open>unicode.IsSpace\<close>), reading the bytes as UTF-8. \<open>spaceRunes\<close> lists the UTF-8 encoding
  of every such code point: the six ASCII ones, U+0085, U+00A0, U+1680, U+2000 to U+200A,
  U+2028, U+2029, U+202F, U+205F and U+3000. A byte sequence that is not one of these
  encodings decodes to a rune that is not white space (an invalid byte decodes to U+FFFD
  of width one), and trimming stops there.
\<close>

definition spaceRunes :: "string list" where
  "spaceRunes =
    [[CHR 0x09], [CHR 0x0A], [CHR 0x0B], [CHR 0x0C], [CHR 0x0D], [CHR 0x20],
     [CHR 0xC2, CHR 0x85], [CHR 0xC2, CHR 0xA0],
     [CHR 0xE1, CHR 0x9A, CHR 0x80],
     [CHR 0xE2, CHR 0x80, CHR 0x80], [CHR 0xE2, CHR 0x80, CHR 0x81],
     [CHR 0xE2, CHR 0x80, CHR 0x82], [CHR 0xE2, CHR 0x80, CHR 0x83],
     [CHR 0xE2, CHR 0x80, CHR 0x84], [CHR 0xE2, CHR 0x80, CHR 0x85],
     [CHR 0xE2, CHR 0x80, CHR 0x86], [CHR 0xE2, CHR 0x80, CHR 0x87],
     [CHR 0xE2, CHR 0x80, CHR 0x88], [CHR 0xE2, CHR 0x80, CHR 0x89],
     [CHR 0xE2, CHR 0x80, CHR 0x8A],
     [CHR 0xE2, CHR 0x80, CHR 0xA8], [CHR 0xE2, CHR 0x80, CHR 0xA9],
     [CHR 0xE2, CHR 0x80, CHR 0xAF],
     [CHR 0xE2, CHR 0x81, CHR 0x9F],
     [CHR 0xE3, CHR 0x80, CHR 0x80]]"

text \<open>The width in bytes of the white-space rune a string starts or ends with; 0 if the
  first (last) rune is not white space or the string is empty.\<close>

definition firstSpaceWidth :: "string \<Rightarrow> nat" where
  "firstSpaceWidth s = (case find (\<lambda>r. prefix r s) spaceRunes of None \<Rightarrow> 0 | Some r \<Rightarrow> length r)"

definition lastSpaceWidth :: "string \<Rightarrow> nat" where
  "lastSpaceWidth s = (case find (\<lambda>r. suffix r s) spaceRunes of None \<Rightarrow> 0 | Some r \<Rightarrow> length r)"

function TrimLeftSpace :: "string \<Rightarrow> string" where
  "TrimLeftSpace s =
     (if firstSpaceWidth s = 0 then s else TrimLeftSpace (drop (firstSpaceWidth s) s))"
  by pat_completeness auto
termination
proof (relation "measure length")
  fix s :: string
  assume "firstSpaceWidth s \<noteq> 0"
  moreover have "firstSpaceWidth s \<le> length s"
    by (auto simp: firstSpaceWidth_def find_Some_iff prefix_def split: option.splits)
  ultimately show "(drop (firstSpaceWidth s) s, s) \<in> measure length"
    by simp
qed simp

function TrimRightSpace :: "string \<Rightarrow> string" where
  "TrimRightSpace s =
     (if lastSpaceWidth s = 0 then s
      else TrimRightSpace (take (length s - lastSpaceWidth s) s))"
  by pat_completeness auto
termination
proof (relation "measure length")
  fix s :: string
  assume "lastSpaceWidth s \<noteq> 0"
  moreover have "lastSpaceWidth s \<le> length s"
    by (auto simp: lastSpaceWidth_def find_Some_iff suffix_def split: option.splits)
  ultimately show "(take (length s - lastSpaceWidth s) s, s) \<in> measure length"
    by simp
qed simp

declare TrimLeftSpace.simps [simp del] TrimRightSpace.simps [simp del]

definition TrimSpace :: "string \<Rightarrow> string" where
  "TrimSpace s = TrimRightSpace (TrimLeftSpace s)"

text \<open>\<open>len(line) - len(strings.TrimLeft(line, " "))\<close>: the number of leading blanks. Both
  loops of \<open>updateFileText\<close> and the loop of \<open>removeTopLevelSection\<close> compute it.\<close>

definition indentOf :: "string \<Rightarrow> nat" where
  "indentOf line = length line - length (TrimLeft line '' '')"

section \<open>removeTopLevelSection\<close>

text \<open>
  The loop of \<open>removeTopLevelSection\<close> over \<open>lines\<close>, with its two variables \<open>skip\<close> and
  \<open>sectionIndent\<close>; the result is the slice \<open>out\<close>, to which the loop appends the lines it
  keeps.
\<close>

fun stripLoop :: "string \<Rightarrow> bool \<Rightarrow> nat \<Rightarrow> string list \<Rightarrow> string list" where
  "stripLoop section skip sectionIndent [] = []"
| "stripLoop section skip sectionIndent (line # rest) =
     (let indent = indentOf line in
      if \<not> skip then
        (if HasPrefix (TrimSpace line) (section @ '':'')
         then stripLoop section True indent rest
         else line # stripLoop section False sectionIndent rest)
      else if TrimSpace line = []
        then stripLoop section True sectionIndent rest
      else if indent > sectionIndent
        then stripLoop section True sectionIndent rest
      else line # stripLoop section False sectionIndent rest)"

definition removeTopLevelSection :: "string \<Rightarrow> string \<Rightarrow> string" where
  "removeTopLevelSection input section = Join (stripLoop section False 0 (Split input))"

section \<open>updateFileText\<close>

text \<open>
  The block that rewrites a \<open>version:\<close> line is written twice in \<open>updateFileText\<close>, with
  the same text (lines 134 to 157 for a release, 227 to 250 for an anchor). \<open>trimmed\<close> is the
  trimmed line, \<open>indent\<close> its indent. The result is \<open>None\<close> where the code finds
  \<open>origVal == newVer\<close> and leaves the line, and the new line otherwise.
\<close>

definition rewriteVersion :: "nat \<Rightarrow> string \<Rightarrow> string \<Rightarrow> string option" where
  "rewriteVersion indent trimmed newVer =
     (let after = TrimSpace (TrimPrefix trimmed ''version:'');
          idx = Index after (CHR ''#'');
          comment = (if idx \<ge> 0 then '' '' @ TrimSpace (drop (nat idx) after) else []);
          origVal = Trim (TrimRight (TrimSpace after) ''# '') [SQ, DQ]
      in if origVal = newVer then None
         else
           (let useQuotes = (Contains after DQ \<or> Contains after SQ);
                valStr = (if useQuotes then DQ # newVer @ [DQ] else newVer)
            in Some (replicate indent (CHR '' '') @ ''version: '' @ valStr @ comment)))"

text \<open>The name a \<open>- name:\<close> line gives (lines 99 to 103).\<close>

definition namePartOf :: "string \<Rightarrow> string" where
  "namePartOf trimmed =
     (let namePart = TrimSpace (TrimPrefix trimmed ''- name:'');
          idx = Index namePart (CHR ''#'');
          namePart = (if idx \<ge> 0 then TrimSpace (take (nat idx) namePart) else namePart)
      in Trim namePart [SQ, DQ])"

subsection \<open>First pass: releases\<close>

record release_state =
  inRelease :: bool
  inChart :: bool
  chartIndent :: nat

definition release_init :: release_state where
  "release_init = \<lparr>inRelease = False, inChart = False, chartIndent = 0\<rparr>"

text \<open>
  One iteration of the inner loop (lines 93 to 166) on \<open>lines[i]\<close>: the variables after the
  iteration and the value of \<open>lines[i]\<close> after it. The iteration reads and writes no other
  element of \<open>lines\<close>.
\<close>

definition release_step ::
  "string \<Rightarrow> string \<Rightarrow> release_state \<Rightarrow> string \<Rightarrow> release_state \<times> string" where
  "release_step relName newVer st line =
     (let trimmed = TrimSpace line;
          indent = indentOf line
      in
      if HasPrefix trimmed ''- name:'' \<and> namePartOf trimmed = relName
        then (st\<lparr>inRelease := True, inChart := False\<rparr>, line)
      else
        (let st1 = (if HasPrefix trimmed ''- name:'' \<and> inRelease st
                    then st\<lparr>inRelease := False, inChart := False\<rparr> else st)
         in
         if \<not> inRelease st1 then (st1, line)
         else if HasPrefix trimmed ''chart:'' \<and> TrimSpace trimmed = ''chart:''
           then (st1\<lparr>inChart := True, chartIndent := indent\<rparr>, line)
         else if inChart st1 then
           (if indent \<le> chartIndent st1 \<and> \<not> HasPrefix trimmed ''version:''
              then (st1\<lparr>inChart := False\<rparr>, line)
            else if HasPrefix trimmed ''version:'' then
              (case rewriteVersion indent trimmed newVer of
                 None \<Rightarrow> (st1\<lparr>inChart := False, inRelease := False\<rparr>, line)
               | Some newLine \<Rightarrow> (st1\<lparr>inChart := False, inRelease := False\<rparr>, newLine))
            else (st1, line))
         else (st1, line)))"

text \<open>The inner loop from index \<open>i\<close> on, given the lines from \<open>i\<close> on: the new lines.\<close>

fun release_loop :: "string \<Rightarrow> string \<Rightarrow> release_state \<Rightarrow> string list \<Rightarrow> string list" where
  "release_loop relName newVer st [] = []"
| "release_loop relName newVer st (line # rest) =
     (case release_step relName newVer st line of
        (st', line') \<Rightarrow> line' # release_loop relName newVer st' rest)"

text \<open>The body of the outer loop for one entry of \<open>versionMap\<close>.\<close>

definition releasePass :: "string \<times> string \<Rightarrow> string list \<Rightarrow> string list" where
  "releasePass kv lines = release_loop (fst kv) (snd kv) release_init lines"

subsection \<open>Second pass: anchors\<close>

record anchor_state =
  inAnchor :: bool
  inAnchorChart :: bool
  anchorIndent :: nat
  foundChartName :: string

definition anchor_init :: anchor_state where
  "anchor_init =
     \<lparr>inAnchor = False, inAnchorChart = False, anchorIndent = 0, foundChartName = []\<rparr>"

text \<open>
  One iteration of the inner loop of the second pass (lines 178 to 261). The variable
  \<open>inChart\<close> of this loop is the field \<open>inAnchorChart\<close>.
\<close>

definition anchor_step ::
  "string \<Rightarrow> string \<Rightarrow> anchor_state \<Rightarrow> string \<Rightarrow> anchor_state \<times> string" where
  "anchor_step chartFullName newVer st line =
     (let trimmed = TrimSpace line;
          indent = indentOf line
      in
      if \<not> inAnchor st \<and> HasPrefix trimmed ''.'' \<and> Contains trimmed (CHR '':'')
        then (st\<lparr>inAnchor := True, anchorIndent := indent, inAnchorChart := False,
                  foundChartName := []\<rparr>, line)
      else if inAnchor st then
        (if indent \<le> anchorIndent st \<and> \<not> HasPrefix trimmed ''chart:''
              \<and> \<not> HasPrefix trimmed ''#''
           then (st\<lparr>inAnchor := False, inAnchorChart := False, foundChartName := []\<rparr>, line)
         else if HasPrefix trimmed ''chart:'' \<and> TrimSpace trimmed = ''chart:''
           then (st\<lparr>inAnchorChart := True\<rparr>, line)
         else if inAnchorChart st then
           (if indent \<le> anchorIndent st \<and> \<not> HasPrefix trimmed ''name:''
                 \<and> \<not> HasPrefix trimmed ''version:''
              then (st\<lparr>inAnchorChart := False\<rparr>, line)
            else if HasPrefix trimmed ''name:''
              then (st\<lparr>foundChartName :=
                          Trim (TrimSpace (TrimPrefix trimmed ''name:'')) [SQ, DQ]\<rparr>, line)
            else if HasPrefix trimmed ''version:'' \<and> foundChartName st = chartFullName then
              (case rewriteVersion indent trimmed newVer of
                 None \<Rightarrow>
                   (st\<lparr>inAnchorChart := False, inAnchor := False, foundChartName := []\<rparr>,
                    line)
               | Some newLine \<Rightarrow>
                   (st\<lparr>inAnchorChart := False, inAnchor := False, foundChartName := []\<rparr>,
                    newLine))
            else (st, line))
         else (st, line))
      else (st, line))"

fun anchor_loop :: "string \<Rightarrow> string \<Rightarrow> anchor_state \<Rightarrow> string list \<Rightarrow> string list" where
  "anchor_loop chartFullName newVer st [] = []"
| "anchor_loop chartFullName newVer st (line # rest) =
     (case anchor_step chartFullName newVer st line of
        (st', line') \<Rightarrow> line' # anchor_loop chartFullName newVer st' rest)"

definition anchorPass :: "string \<times> string \<Rightarrow> string list \<Rightarrow> string list" where
  "anchorPass kv lines = anchor_loop (fst kv) (snd kv) anchor_init lines"

subsection \<open>The whole function\<close>

text \<open>
  A Go map is enumerated in an order the language does not fix. \<open>versionMap\<close> and
  \<open>chartVersionMap\<close> are given here as the list of their entries in the order the
  \<open>range\<close> loop visits them; the keys of a map are distinct. \<open>patchLines\<close> is the slice
  \<open>lines\<close> after both outer loops.
\<close>

definition patchLines ::
  "string list \<Rightarrow> (string \<times> string) list \<Rightarrow> (string \<times> string) list \<Rightarrow> string list" where
  "patchLines lines versionMap chartVersionMap =
     fold anchorPass chartVersionMap (fold releasePass versionMap lines)"

definition updateFileText ::
  "string \<Rightarrow> (string \<times> string) list \<Rightarrow> (string \<times> string) list \<Rightarrow> string" where
  "updateFileText original versionMap chartVersionMap =
     Join (patchLines (Split original) versionMap chartVersionMap)"

section \<open>Notions used in the statements\<close>

text \<open>A line whose trimmed form starts with \<open>version:\<close>; a \<open>- name:\<close> line that names
  the release \<open>relName\<close>.\<close>

definition isVersionLine :: "string \<Rightarrow> bool" where
  "isVersionLine line = HasPrefix (TrimSpace line) ''version:''"

definition namesRelease :: "string \<Rightarrow> string \<Rightarrow> bool" where
  "namesRelease relName line =
     (HasPrefix (TrimSpace line) ''- name:'' \<and> namePartOf (TrimSpace line) = relName)"

text \<open>The variables of the inner loop of the first pass after it has run over the given
  lines, and the scope of line \<open>i\<close> of a buffer: a Chart scope inside a Release scope is
  open when the loop reaches \<open>lines[i]\<close>.\<close>

fun release_run :: "string \<Rightarrow> string \<Rightarrow> release_state \<Rightarrow> string list \<Rightarrow> release_state" where
  "release_run relName newVer st [] = st"
| "release_run relName newVer st (line # rest) =
     release_run relName newVer (fst (release_step relName newVer st line)) rest"




text \<open>Two lines that the scans cannot tell apart: equal, or both \<open>version:\<close> lines of the
  same indent.\<close>

definition sameShape :: "string \<Rightarrow> string \<Rightarrow> bool" where
  "sameShape l l' =
     (l = l' \<or> (isVersionLine l \<and> isVersionLine l' \<and> indentOf l = indentOf l'))"

text \<open>What both passes put in place of a \<open>version:\<close> line they have matched: the rewritten
  line, or the line itself where the code finds the version already equal to the new one.\<close>

definition patchedVersionLine :: "string \<Rightarrow> string \<Rightarrow> string" where
  "patchedVersionLine newVer line =
     (case rewriteVersion (indentOf line) (TrimSpace line) newVer of
        None \<Rightarrow> line | Some newLine \<Rightarrow> newLine)"

text \<open>For \<open>removeTopLevelSection\<close>: a line that starts the section, a line that the loop
  drops while it is skipping below a header of indent \<open>k\<close>, and what may follow the dropped
  lines: nothing, or a line that ends the skipping and then no further header.\<close>

definition isHeader :: "string \<Rightarrow> string \<Rightarrow> bool" where
  "isHeader section line = HasPrefix (TrimSpace line) (section @ '':'')"

definition skippedLine :: "nat \<Rightarrow> string \<Rightarrow> bool" where
  "skippedLine k line = (TrimSpace line = [] \<or> k < indentOf line)"

definition afterSection :: "nat \<Rightarrow> string \<Rightarrow> string list \<Rightarrow> bool" where
  "afterSection k section rest =
     (case rest of [] \<Rightarrow> True
      | r # rs \<Rightarrow> \<not> skippedLine k r \<and> (\<forall>l\<in>set rs. \<not> isHeader section l))"

text \<open>For the first pass: a line that is neither a \<open>- name:\<close> line nor a bare \<open>chart:\<close>
  line; a line inside the block of the \<open>chart:\<close> line \<open>c\<close> (indented more than \<open>c\<close>, not a
  \<open>version:\<close> line); and a sequence item of the release: its \<open>- name:\<close> line \<open>n\<close>, lines
  \<open>g\<close>, the \<open>chart:\<close> line \<open>c\<close>, lines \<open>h\<close> of the chart block, and the \<open>version:\<close> line
  \<open>v\<close>.\<close>

definition plainLine :: "string \<Rightarrow> bool" where
  "plainLine line = (\<not> HasPrefix (TrimSpace line) ''- name:'' \<and> TrimSpace line \<noteq> ''chart:'')"

definition chartChild :: "string \<Rightarrow> string \<Rightarrow> bool" where
  "chartChild c line =
     (plainLine line \<and> \<not> isVersionLine line \<and> indentOf c < indentOf line)"

definition releaseItem ::
  "string \<Rightarrow> string \<Rightarrow> string list \<Rightarrow> string \<Rightarrow> string list \<Rightarrow> string \<Rightarrow> bool" where
  "releaseItem relName n g c h v =
     (namesRelease relName n \<and> (\<forall>l\<in>set g. plainLine l) \<and> TrimSpace c = ''chart:''
      \<and> (\<forall>l\<in>set h. chartChild c l) \<and> isVersionLine v)"

text \<open>The value that the code compares with the new version (\<open>origVal\<close>), for a line.\<close>

definition extractedVersion :: "string \<Rightarrow> string" where
  "extractedVersion line =
     Trim (TrimRight (TrimSpace (TrimSpace (TrimPrefix (TrimSpace line) ''version:''))) ''# '')
       [SQ, DQ]"










section \<open>Lines, splitting and joining\<close>

lemma Split_not_Nil: "Split s \<noteq> []"
  by (induction s) (auto split: list.splits)

lemma Join_Cons: "ls \<noteq> [] \<Longrightarrow> Join (l # ls) = l @ LF # Join ls"
  by (cases ls) auto

lemma Join_Split: "Join (Split s) = s"
proof (induction s)
  case Nil
  show ?case by simp
next
  case (Cons c cs)
  show ?case
  proof (cases "c = LF")
    case True
    with Cons show ?thesis by (simp add: Join_Cons Split_not_Nil)
  next
    case False
    obtain l ls where sp: "Split cs = l # ls"
      using Split_not_Nil [of cs] by (cases "Split cs") auto
    have "Join ((c # l) # ls) = c # Join (l # ls)" by (cases ls) auto
    with False sp Cons show ?thesis by simp
  qed
qed

lemma Split_no_LF: "l \<in> set (Split s) \<Longrightarrow> LF \<notin> set l"
proof (induction s arbitrary: l)
  case Nil
  then show ?case by simp
next
  case (Cons c cs)
  then show ?case
    by (cases "Split cs") (auto split: if_splits)
qed

lemma Split_append_no_LF: "LF \<notin> set l \<Longrightarrow> Split (l @ LF # s) = l # Split s"
  by (induction l) (auto split: list.splits)

lemma Split_single: "LF \<notin> set l \<Longrightarrow> Split l = [l]"
  by (induction l) (auto split: list.splits)

lemma Split_Join: "ls \<noteq> [] \<Longrightarrow> \<forall>l\<in>set ls. LF \<notin> set l \<Longrightarrow> Split (Join ls) = ls"
proof (induction ls rule: Join.induct)
  case 1
  then show ?case by simp
next
  case (2 l)
  then show ?case by (simp add: Split_single)
next
  case (3 l m ls)
  then show ?case by (simp add: Split_append_no_LF)
qed

lemma length_release_loop: "length (release_loop rel ver st ls) = length ls"
  by (induction ls arbitrary: st) (auto split: prod.splits)

lemma length_anchor_loop: "length (anchor_loop k ver st ls) = length ls"
  by (induction ls arbitrary: st) (auto split: prod.splits)

lemma length_fold_releasePass: "length (fold releasePass vm ls) = length ls"
  by (induction vm arbitrary: ls) (auto simp: releasePass_def length_release_loop)

lemma length_fold_anchorPass: "length (fold anchorPass cm ls) = length ls"
  by (induction cm arbitrary: ls) (auto simp: anchorPass_def length_anchor_loop)

lemma length_patchLines: "length (patchLines ls vm cm) = length ls"
  by (simp add: patchLines_def length_fold_releasePass length_fold_anchorPass)

section \<open>White space and the shape of a rewritten line\<close>

lemma set_TrimLeftSpace: "set (TrimLeftSpace s) \<subseteq> set s"
proof (induction s rule: TrimLeftSpace.induct)
  case (1 s)
  show ?case
  proof (cases "firstSpaceWidth s = 0")
    case True
    then show ?thesis by (simp add: TrimLeftSpace.simps [of s])
  next
    case False
    with 1 have "set (TrimLeftSpace (drop (firstSpaceWidth s) s)) \<subseteq> set (drop (firstSpaceWidth s) s)"
      by simp
    also have "\<dots> \<subseteq> set s" by (rule set_drop_subset)
    finally show ?thesis using False by (simp add: TrimLeftSpace.simps [of s])
  qed
qed

lemma set_TrimRightSpace: "set (TrimRightSpace s) \<subseteq> set s"
proof (induction s rule: TrimRightSpace.induct)
  case (1 s)
  show ?case
  proof (cases "lastSpaceWidth s = 0")
    case True
    then show ?thesis by (simp add: TrimRightSpace.simps [of s])
  next
    case False
    with 1 have "set (TrimRightSpace (take (length s - lastSpaceWidth s) s))
        \<subseteq> set (take (length s - lastSpaceWidth s) s)"
      by simp
    also have "\<dots> \<subseteq> set s" by (rule set_take_subset)
    finally show ?thesis using False by (simp add: TrimRightSpace.simps [of s])
  qed
qed

lemma set_TrimSpace: "set (TrimSpace s) \<subseteq> set s"
  unfolding TrimSpace_def using set_TrimRightSpace set_TrimLeftSpace by blast

lemma firstSpaceWidth_blank: "firstSpaceWidth (CHR '' '' # s) = 1"
  by (simp add: firstSpaceWidth_def spaceRunes_def)

lemma TrimLeftSpace_blanks: "TrimLeftSpace (replicate n (CHR '' '') @ s) = TrimLeftSpace s"
proof (induction n)
  case 0
  show ?case by simp
next
  case (Suc n)
  have "TrimLeftSpace (CHR '' '' # replicate n (CHR '' '') @ s)
      = TrimLeftSpace (replicate n (CHR '' '') @ s)"
    by (subst TrimLeftSpace.simps) (simp add: firstSpaceWidth_blank)
  with Suc show ?case by simp
qed

text \<open>A byte that starts no white-space rune stops the trimming on the left.\<close>

lemma TrimLeftSpace_stop:
  "\<forall>r\<in>set spaceRunes. hd r \<noteq> c \<Longrightarrow> TrimLeftSpace (c # s) = c # s"
proof -
  assume a: "\<forall>r\<in>set spaceRunes. hd r \<noteq> c"
  have "find (\<lambda>r. prefix r (c # s)) spaceRunes = None"
  proof (rule ccontr)
    assume "find (\<lambda>r. prefix r (c # s)) spaceRunes \<noteq> None"
    then have "\<exists>r. r \<in> set spaceRunes \<and> prefix r (c # s)"
      by (simp add: find_None_iff)
    then obtain r where r: "r \<in> set spaceRunes" "prefix r (c # s)"
      by blast
    from r(1) have "r \<noteq> []" by (auto simp: spaceRunes_def)
    then obtain x xs where "r = x # xs" by (cases r) auto
    with r(2) have "hd r = c" by simp
    with a r(1) show False by blast
  qed
  then have "firstSpaceWidth (c # s) = 0" by (simp add: firstSpaceWidth_def)
  then show ?thesis by (simp add: TrimLeftSpace.simps [of "c # s"])
qed

text \<open>A byte that ends no white-space rune stops the trimming on the right.\<close>

lemma TrimRightSpace_keeps:
  assumes "p \<noteq> []" and "\<forall>r\<in>set spaceRunes. last p \<notin> set r"
  shows "prefix p (TrimRightSpace (p @ t))"
proof (induction "p @ t" arbitrary: t rule: TrimRightSpace.induct)
  case (1 t)
  show ?case
  proof (cases "lastSpaceWidth (p @ t) = 0")
    case True
    then show ?thesis by (simp add: TrimRightSpace.simps [of "p @ t"])
  next
    case False
    then obtain r where f: "find (\<lambda>r. suffix r (p @ t)) spaceRunes = Some r"
      by (auto simp: lastSpaceWidth_def split: option.splits)
    then have r: "r \<in> set spaceRunes" "suffix r (p @ t)"
      by (auto simp: find_Some_iff)
    from f have w: "lastSpaceWidth (p @ t) = length r"
      by (simp add: lastSpaceWidth_def)
    have le: "length r \<le> length t"
    proof (rule ccontr)
      assume "\<not> length r \<le> length t"
      then have lt: "length t < length r" by simp
      from r(2) obtain zs where zs: "p @ t = zs @ r" by (auto simp: suffix_def)
      then have "length zs < length p" using lt
        by (metis add_less_cancel_left length_append nat_add_left_cancel_less add.commute
            less_diff_conv not_less_iff_gr_or_eq)
      then obtain p' where p': "p = zs @ p'" "p' \<noteq> []"
        using zs by (metis append_eq_append_conv_if append_take_drop_id drop_eq_Nil not_le)
      with zs have "r = p' @ t" by simp
      moreover have "last p = last p'" using p' by simp
      ultimately have "last p \<in> set r" using p'(2) by (metis UnCI last_in_set set_append)
      with assms(2) r(1) show False by blast
    qed
    then have tk: "take (length (p @ t) - lastSpaceWidth (p @ t)) (p @ t)
        = p @ take (length t - length r) t"
      using w by simp
    have "prefix p (TrimRightSpace (p @ take (length t - length r) t))"
      using 1 [OF False, of "take (length t - length r) t"] tk by simp
    then show ?thesis using False tk by (simp add: TrimRightSpace.simps [of "p @ t"])
  qed
qed

lemma version_blocks_left: "\<forall>r\<in>set spaceRunes. hd r \<noteq> CHR ''v''"
  by (simp add: spaceRunes_def)

lemma colon_blocks_right: "\<forall>r\<in>set spaceRunes. CHR '':'' \<notin> set r"
  by (simp add: spaceRunes_def)

lemma TrimSpace_version:
  "HasPrefix (TrimSpace (replicate n (CHR '' '') @ ''version:'' @ t)) ''version:''"
proof -
  have "TrimLeftSpace (replicate n (CHR '' '') @ ''version:'' @ t) = ''version:'' @ t"
    using TrimLeftSpace_stop [OF version_blocks_left, of "''ersion:'' @ t"]
    by (simp add: TrimLeftSpace_blanks)
  moreover have "prefix ''version:'' (TrimRightSpace (''version:'' @ t))"
    by (rule TrimRightSpace_keeps) (use colon_blocks_right in simp_all)
  ultimately show ?thesis by (simp add: TrimSpace_def HasPrefix_def)
qed

lemma TrimLeft_blanks:
  "c \<noteq> CHR '' '' \<Longrightarrow> TrimLeft (replicate n (CHR '' '') @ c # t) '' '' = c # t"
  by (induction n) (auto simp: TrimLeft_def)

lemma indentOf_blanks:
  "c \<noteq> CHR '' '' \<Longrightarrow> indentOf (replicate n (CHR '' '') @ c # t) = n"
  by (simp add: indentOf_def TrimLeft_blanks)

lemma rewriteVersion_shape:
  assumes "rewriteVersion indent trimmed newVer = Some newLine"
  shows "isVersionLine newLine \<and> indentOf newLine = indent"
proof -
  from assms obtain t where nl: "newLine = replicate indent (CHR '' '') @ ''version:'' @ t"
    by (auto simp: rewriteVersion_def Let_def split: if_splits)
  then have "isVersionLine newLine"
    using TrimSpace_version [of indent t] by (simp add: isVersionLine_def)
  moreover have "indentOf newLine = indent"
    using nl indentOf_blanks [of "CHR ''v''" indent "''ersion:'' @ t"] by simp
  ultimately show ?thesis by simp
qed

lemma version_not_name: "HasPrefix t ''version:'' \<Longrightarrow> \<not> HasPrefix t ''- name:''"
  by (cases t) (auto simp: HasPrefix_def)

lemma version_not_chart: "HasPrefix t ''version:'' \<Longrightarrow> \<not> HasPrefix t ''chart:''"
  by (cases t) (auto simp: HasPrefix_def)

lemma version_not_dot: "HasPrefix t ''version:'' \<Longrightarrow> \<not> HasPrefix t ''.''"
  by (cases t) (auto simp: HasPrefix_def)

lemma version_not_hash: "HasPrefix t ''version:'' \<Longrightarrow> \<not> HasPrefix t ''#''"
  by (cases t) (auto simp: HasPrefix_def)

lemma version_not_nameKey: "HasPrefix t ''version:'' \<Longrightarrow> \<not> HasPrefix t ''name:''"
  by (cases t) (auto simp: HasPrefix_def)

section \<open>One iteration of each pass\<close>

text \<open>What one iteration of the first pass does to a \<open>version:\<close> line in an open Chart
  scope, and that it changes no other line.\<close>

lemma release_step_version:
  assumes "inRelease st" "inChart st" "isVersionLine line"
  shows "release_step relName newVer st line =
     (st\<lparr>inChart := False, inRelease := False\<rparr>,
      case rewriteVersion (indentOf line) (TrimSpace line) newVer of
        None \<Rightarrow> line | Some newLine \<Rightarrow> newLine)"
  using assms version_not_name [of "TrimSpace line"] version_not_chart [of "TrimSpace line"]
  by (simp add: release_step_def isVersionLine_def Let_def split: option.splits)

lemma release_step_changes:
  assumes "snd (release_step relName newVer st line) \<noteq> line"
  shows "inRelease st \<and> inChart st \<and> isVersionLine line"
proof -
  have v: "isVersionLine line"
    using assms
    by (auto simp: release_step_def isVersionLine_def Let_def split: if_splits option.splits)
  then have n: "\<not> HasPrefix (TrimSpace line) ''- name:''"
    using version_not_name by (simp add: isVersionLine_def)
  show ?thesis
    using assms v n
    by (auto simp: release_step_def Let_def split: if_splits option.splits)
qed

lemma release_step_line:
  "snd (release_step relName newVer st line) =
     (if inRelease st \<and> inChart st \<and> isVersionLine line
      then (case rewriteVersion (indentOf line) (TrimSpace line) newVer of
              None \<Rightarrow> line | Some newLine \<Rightarrow> newLine)
      else line)"
  using release_step_changes [of relName newVer st line]
    release_step_version [of st line relName newVer]
  by auto

lemma release_step_sameShape: "sameShape line (snd (release_step relName newVer st line))"
  using rewriteVersion_shape [of "indentOf line" "TrimSpace line" newVer]
  by (auto simp: release_step_line sameShape_def split: option.splits)

lemma release_step_state_shape:
  assumes "sameShape l l'"
  shows "fst (release_step relName newVer st l) = fst (release_step relName newVer' st l')"
proof (cases "isVersionLine l")
  case True
  with assms have v': "isVersionLine l'" and i: "indentOf l = indentOf l'"
    by (auto simp: sameShape_def)
  from True have a: "\<not> HasPrefix (TrimSpace l) ''- name:''" "\<not> HasPrefix (TrimSpace l) ''chart:''"
    using version_not_name version_not_chart by (simp_all add: isVersionLine_def)
  from v' have b: "\<not> HasPrefix (TrimSpace l') ''- name:''" "\<not> HasPrefix (TrimSpace l') ''chart:''"
    using version_not_name version_not_chart by (simp_all add: isVersionLine_def)
  show ?thesis
    using True v' i a b
    by (simp add: release_step_def isVersionLine_def Let_def split: option.splits)
next
  case False
  with assms have "l' = l" by (auto simp: sameShape_def)
  with False show ?thesis
    by (simp add: release_step_def isVersionLine_def Let_def split: option.splits)
qed

lemma release_loop_nth:
  "i < length ls \<Longrightarrow>
   release_loop relName newVer st ls ! i =
     snd (release_step relName newVer (release_run relName newVer st (take i ls)) (ls ! i))"
proof (induction ls arbitrary: st i)
  case Nil
  then show ?case by simp
next
  case (Cons l ls)
  then show ?case
    by (cases i) (auto split: prod.splits)
qed


lemma sameShape_sym: "sameShape l l' \<Longrightarrow> sameShape l' l"
  by (auto simp: sameShape_def)

lemma sameShape_trans: "sameShape l l' \<Longrightarrow> sameShape l' l'' \<Longrightarrow> sameShape l l''"
  by (auto simp: sameShape_def)




text \<open>The same facts for one iteration of the second pass.\<close>

lemma version_excludes:
  assumes "isVersionLine line"
  shows "\<not> HasPrefix (TrimSpace line) ''- name:''" "\<not> HasPrefix (TrimSpace line) ''chart:''"
    "\<not> HasPrefix (TrimSpace line) ''.''" "\<not> HasPrefix (TrimSpace line) ''#''"
    "\<not> HasPrefix (TrimSpace line) ''name:''"
  using assms version_not_name version_not_chart version_not_dot version_not_hash
    version_not_nameKey
  by (simp_all add: isVersionLine_def)

lemma anchor_step_version:
  assumes "inAnchor st" "inAnchorChart st" "foundChartName st = chartFullName"
    "isVersionLine line" "anchorIndent st < indentOf line"
  shows "anchor_step chartFullName newVer st line =
     (st\<lparr>inAnchorChart := False, inAnchor := False, foundChartName := []\<rparr>,
      case rewriteVersion (indentOf line) (TrimSpace line) newVer of
        None \<Rightarrow> line | Some newLine \<Rightarrow> newLine)"
  using assms version_excludes [of line]
  by (simp add: anchor_step_def isVersionLine_def Let_def split: option.splits)

lemma anchor_step_changes:
  assumes "snd (anchor_step chartFullName newVer st line) \<noteq> line"
  shows "inAnchor st \<and> inAnchorChart st \<and> foundChartName st = chartFullName
    \<and> isVersionLine line \<and> anchorIndent st < indentOf line"
proof -
  have v: "isVersionLine line"
    using assms
    by (auto simp: anchor_step_def isVersionLine_def Let_def split: if_splits option.splits)
  show ?thesis
    using assms v version_excludes [OF v]
    by (auto simp: anchor_step_def Let_def split: if_splits option.splits)
qed

lemma anchor_step_line:
  "snd (anchor_step chartFullName newVer st line) =
     (if inAnchor st \<and> inAnchorChart st \<and> foundChartName st = chartFullName
          \<and> isVersionLine line \<and> anchorIndent st < indentOf line
      then (case rewriteVersion (indentOf line) (TrimSpace line) newVer of
              None \<Rightarrow> line | Some newLine \<Rightarrow> newLine)
      else line)"
  using anchor_step_changes [of chartFullName newVer st line]
    anchor_step_version [of st chartFullName line newVer]
  by auto

lemma anchor_step_sameShape: "sameShape line (snd (anchor_step chartFullName newVer st line))"
  using rewriteVersion_shape [of "indentOf line" "TrimSpace line" newVer]
  by (auto simp: anchor_step_line sameShape_def split: option.splits)




lemma anchor_loop_shape: "list_all2 sameShape ls (anchor_loop chartFullName newVer st ls)"
proof (induction ls arbitrary: st)
  case Nil
  show ?case by simp
next
  case (Cons l ls)
  obtain st' l' where s: "anchor_step chartFullName newVer st l = (st', l')"
    by (cases "anchor_step chartFullName newVer st l")
  then have "sameShape l l'"
    using anchor_step_sameShape [of l chartFullName newVer st] by simp
  with s Cons show ?case by simp
qed

section \<open>The buffer across passes\<close>

text \<open>The buffer after any number of passes has the shape of the buffer before.\<close>

lemma list_all2_sameShape_trans:
  "list_all2 sameShape xs ys \<Longrightarrow> list_all2 sameShape ys zs \<Longrightarrow> list_all2 sameShape xs zs"
  by (rule list_all2_trans [where ?P1.0 = sameShape and ?P2.0 = sameShape])
    (auto intro: sameShape_trans)


lemma fold_anchorPass_shape:
  "list_all2 sameShape lines buf \<Longrightarrow> list_all2 sameShape lines (fold anchorPass cm buf)"
proof (induction cm arbitrary: buf)
  case Nil
  then show ?case by simp
next
  case (Cons kv cm)
  have "list_all2 sameShape buf (anchorPass kv buf)"
    by (simp add: anchorPass_def anchor_loop_shape)
  with Cons.prems have "list_all2 sameShape lines (anchorPass kv buf)"
    by (rule list_all2_sameShape_trans)
  then show ?case using Cons.IH by simp
qed







section \<open>Line feeds\<close>

text \<open>A rewritten line has no line feed unless the new version has one.\<close>

lemma set_TrimPrefix: "set (TrimPrefix s p) \<subseteq> set s"
  by (auto simp: TrimPrefix_def dest: in_set_dropD)

lemma rewriteVersion_form:
  assumes "rewriteVersion indent trimmed newVer = Some newLine"
  shows "\<exists>valStr comment.
     newLine = replicate indent (CHR '' '') @ ''version: '' @ valStr @ comment
     \<and> (valStr = newVer \<or> valStr = DQ # newVer @ [DQ])
     \<and> (comment = [] \<or> (\<exists>n. comment =
           '' '' @ TrimSpace (drop n (TrimSpace (TrimPrefix trimmed ''version:'')))))"
proof -
  let ?after = "TrimSpace (TrimPrefix trimmed ''version:'')"
  let ?idx = "Index ?after (CHR ''#'')"
  let ?comment = "if ?idx \<ge> 0 then '' '' @ TrimSpace (drop (nat ?idx) ?after) else []"
  let ?valStr = "if Contains ?after DQ \<or> Contains ?after SQ then DQ # newVer @ [DQ] else newVer"
  from assms have "newLine = replicate indent (CHR '' '') @ ''version: '' @ ?valStr @ ?comment"
    unfolding rewriteVersion_def Let_def by (auto split: if_splits)
  moreover have "?valStr = newVer \<or> ?valStr = DQ # newVer @ [DQ]" by simp
  moreover have "?comment = [] \<or> (\<exists>n. ?comment = '' '' @ TrimSpace (drop n ?after))"
    by auto
  ultimately show ?thesis by blast
qed


lemma rewriteVersion_no_LF:
  assumes r: "rewriteVersion indent trimmed newVer = Some newLine"
    and t: "LF \<notin> set trimmed" and v: "LF \<notin> set newVer"
  shows "LF \<notin> set newLine"
proof -
  let ?after = "TrimSpace (TrimPrefix trimmed ''version:'')"
  have a: "LF \<notin> set ?after"
    using t set_TrimSpace [of "TrimPrefix trimmed ''version:''"]
      set_TrimPrefix [of trimmed "''version:''"]
    by blast
  have c: "LF \<notin> set (TrimSpace (drop n ?after))" for n
    using a set_TrimSpace [of "drop n ?after"] set_drop_subset [of n ?after] by blast
  from rewriteVersion_form [OF r] obtain valStr comment where
    nl: "newLine = replicate indent (CHR '' '') @ ''version: '' @ valStr @ comment"
    and vs: "valStr = newVer \<or> valStr = DQ # newVer @ [DQ]"
    and cm: "comment = [] \<or> (\<exists>n. comment = '' '' @ TrimSpace (drop n ?after))"
    by blast
  have 1: "LF \<notin> set (replicate indent (CHR '' ''))" by (simp add: LF_def)
  have 2: "LF \<notin> set ''version: ''" by (simp add: LF_def)
  have 3: "LF \<notin> set valStr" using vs v by (auto simp: LF_def DQ_def)
  have 4: "LF \<notin> set comment" using cm c by (auto simp: LF_def)
  show ?thesis unfolding nl set_append using 1 2 3 4 by blast
qed


lemma release_step_no_LF:
  assumes "LF \<notin> set line" "LF \<notin> set newVer"
  shows "LF \<notin> set (snd (release_step relName newVer st line))"
proof (cases "rewriteVersion (indentOf line) (TrimSpace line) newVer")
  case None
  with assms show ?thesis by (simp add: release_step_line)
next
  case (Some newLine)
  have "LF \<notin> set (TrimSpace line)" using assms(1) set_TrimSpace [of line] by blast
  from rewriteVersion_no_LF [OF Some this assms(2)] Some assms(1)
  show ?thesis by (simp add: release_step_line)
qed

lemma anchor_step_no_LF:
  assumes "LF \<notin> set line" "LF \<notin> set newVer"
  shows "LF \<notin> set (snd (anchor_step chartFullName newVer st line))"
proof (cases "rewriteVersion (indentOf line) (TrimSpace line) newVer")
  case None
  with assms show ?thesis by (simp add: anchor_step_line)
next
  case (Some newLine)
  have "LF \<notin> set (TrimSpace line)" using assms(1) set_TrimSpace [of line] by blast
  from rewriteVersion_no_LF [OF Some this assms(2)] Some assms(1)
  show ?thesis by (simp add: anchor_step_line)
qed

lemma release_loop_no_LF:
  "\<forall>l\<in>set ls. LF \<notin> set l \<Longrightarrow> LF \<notin> set newVer \<Longrightarrow>
   \<forall>l\<in>set (release_loop relName newVer st ls). LF \<notin> set l"
proof (induction ls arbitrary: st)
  case Nil
  then show ?case by simp
next
  case (Cons l ls)
  obtain st' l' where s: "release_step relName newVer st l = (st', l')"
    by (cases "release_step relName newVer st l")
  with Cons.prems have "LF \<notin> set l'"
    using release_step_no_LF [of l newVer relName st] by simp
  with s Cons show ?case by simp
qed

lemma anchor_loop_no_LF:
  "\<forall>l\<in>set ls. LF \<notin> set l \<Longrightarrow> LF \<notin> set newVer \<Longrightarrow>
   \<forall>l\<in>set (anchor_loop chartFullName newVer st ls). LF \<notin> set l"
proof (induction ls arbitrary: st)
  case Nil
  then show ?case by simp
next
  case (Cons l ls)
  obtain st' l' where s: "anchor_step chartFullName newVer st l = (st', l')"
    by (cases "anchor_step chartFullName newVer st l")
  with Cons.prems have "LF \<notin> set l'"
    using anchor_step_no_LF [of l newVer chartFullName st] by simp
  with s Cons show ?case by simp
qed


lemma fold_releasePass_no_LF:
  "\<forall>l\<in>set ls. LF \<notin> set l \<Longrightarrow> \<forall>kv\<in>set vm. LF \<notin> set (snd kv) \<Longrightarrow>
   \<forall>l\<in>set (fold releasePass vm ls). LF \<notin> set l"
proof (induction vm arbitrary: ls)
  case Nil
  then show ?case by simp
next
  case (Cons kv vm)
  from Cons.prems have "LF \<notin> set (snd kv)" by simp
  with Cons.prems(1) have "\<forall>l\<in>set (releasePass kv ls). LF \<notin> set l"
    unfolding releasePass_def by (rule release_loop_no_LF)
  moreover from Cons.prems have "\<forall>kv\<in>set vm. LF \<notin> set (snd kv)" by simp
  ultimately have "\<forall>l\<in>set (fold releasePass vm (releasePass kv ls)). LF \<notin> set l"
    by (rule Cons.IH)
  then show ?case by simp
qed

lemma fold_anchorPass_no_LF:
  "\<forall>l\<in>set ls. LF \<notin> set l \<Longrightarrow> \<forall>kv\<in>set cm. LF \<notin> set (snd kv) \<Longrightarrow>
   \<forall>l\<in>set (fold anchorPass cm ls). LF \<notin> set l"
proof (induction cm arbitrary: ls)
  case Nil
  then show ?case by simp
next
  case (Cons kv cm)
  from Cons.prems have "LF \<notin> set (snd kv)" by simp
  with Cons.prems(1) have "\<forall>l\<in>set (anchorPass kv ls). LF \<notin> set l"
    unfolding anchorPass_def by (rule anchor_loop_no_LF)
  moreover from Cons.prems have "\<forall>kv\<in>set cm. LF \<notin> set (snd kv)" by simp
  ultimately have "\<forall>l\<in>set (fold anchorPass cm (anchorPass kv ls)). LF \<notin> set l"
    by (rule Cons.IH)
  then show ?case by simp
qed

lemma patchLines_no_LF:
  assumes "\<forall>l\<in>set ls. LF \<notin> set l" "\<forall>kv\<in>set vm \<union> set cm. LF \<notin> set (snd kv)"
  shows "\<forall>l\<in>set (patchLines ls vm cm). LF \<notin> set l"
proof -
  from assms(2) have v: "\<forall>kv\<in>set vm. LF \<notin> set (snd kv)"
    and c: "\<forall>kv\<in>set cm. LF \<notin> set (snd kv)" by blast+
  from assms(1) v have "\<forall>l\<in>set (fold releasePass vm ls). LF \<notin> set l"
    by (rule fold_releasePass_no_LF)
  then show ?thesis unfolding patchLines_def using c by (rule fold_anchorPass_no_LF)
qed

section \<open>Line count and frame\<close>

text \<open>
  Claim C9. The slice \<open>lines\<close> has the same length after the passes as before, for every
  input and every pair of mappings. The text that \<open>updateFileText\<close> returns has the same
  number of lines as \<open>original\<close> when no version of either mapping contains a line feed; a
  version with a line feed is written into its line as it is, and the output then has more
  lines than the input.
\<close>

theorem line_count_preserved:
  "length (patchLines (Split original) versionMap chartVersionMap) = length (Split original)
   \<and> ((\<forall>kv\<in>set versionMap \<union> set chartVersionMap. LF \<notin> set (snd kv)) \<longrightarrow>
        length (Split (updateFileText original versionMap chartVersionMap))
          = length (Split original))"
proof (intro conjI impI)
  let ?out = "patchLines (Split original) versionMap chartVersionMap"
  show len: "length ?out = length (Split original)"
    by (rule length_patchLines)
  assume v: "\<forall>kv\<in>set versionMap \<union> set chartVersionMap. LF \<notin> set (snd kv)"
  from len have ne: "?out \<noteq> []" using Split_not_Nil [of original] by auto
  have "\<forall>l\<in>set (Split original). LF \<notin> set l"
    using Split_no_LF by blast
  then have "\<forall>l\<in>set ?out. LF \<notin> set l"
    using v by (rule patchLines_no_LF)
  with ne have "Split (Join ?out) = ?out" by (rule Split_Join)
  with len show "length (Split (updateFileText original versionMap chartVersionMap))
      = length (Split original)"
    by (simp add: updateFileText_def)
qed

theorem line_count_preserved_witness:
  "length (Split (updateFileText ''- name: app\<newline>  chart:\<newline>    version: 1.0.0''
      [(''app'', ''2.0.0'')] [(''repo/app'', ''2.0.0'')])) = 3"
proof -
  have h: "\<forall>kv\<in>set [(''app'', ''2.0.0'')] \<union> set [(''repo/app'', ''2.0.0'')]. LF \<notin> set (snd kv)"
    by (simp add: LF_def)
  have e: "length (Split ''- name: app\<newline>  chart:\<newline>    version: 1.0.0'') = 3"
    by code_simp
  from line_count_preserved [of "''- name: app\<newline>  chart:\<newline>    version: 1.0.0''"
      "[(''app'', ''2.0.0'')]" "[(''repo/app'', ''2.0.0'')]"] h
  have "length (Split (updateFileText ''- name: app\<newline>  chart:\<newline>    version: 1.0.0''
      [(''app'', ''2.0.0'')] [(''repo/app'', ''2.0.0'')]))
    = length (Split ''- name: app\<newline>  chart:\<newline>    version: 1.0.0'')"
    by blast
  with e show ?thesis by (simp only:)
qed

theorem line_count_counterexample:
  "length (Split (updateFileText ''- name: app\<newline>  chart:\<newline>    version: 1.0.0''
      [(''app'', ''2.0.0\<newline>x'')] []))
   \<noteq> length (Split ''- name: app\<newline>  chart:\<newline>    version: 1.0.0'')"
  by code_simp


section \<open>Rewriting a matched line\<close>

lemma rewriteVersion_indent:
  "rewriteVersion n trimmed newVer =
     map_option (\<lambda>l. replicate n (CHR '' '') @ l) (rewriteVersion 0 trimmed newVer)"
  by (simp add: rewriteVersion_def Let_def)

lemma TrimSpace_blanks: "TrimSpace (replicate n (CHR '' '') @ s) = TrimSpace s"
  by (simp add: TrimSpace_def TrimLeftSpace_blanks)

lemma releasePass_at:
  assumes "inRelease (release_run relName newVer release_init pre)"
    and "inChart (release_run relName newVer release_init pre)"
    and "isVersionLine line"
  shows "releasePass (relName, newVer) (pre @ line # post) ! length pre
    = patchedVersionLine newVer line"
proof -
  have "releasePass (relName, newVer) (pre @ line # post) ! length pre
      = snd (release_step relName newVer (release_run relName newVer release_init pre) line)"
    by (simp add: releasePass_def release_loop_nth)
  with assms show ?thesis by (simp add: release_step_line patchedVersionLine_def)
qed

lemma patched_quoted:
  "patchedVersionLine ''2.0.0'' (replicate n (CHR '' '') @ ''version: \"1.2.3\" # pinned'')
     = replicate n (CHR '' '') @ ''version: \"2.0.0\" # pinned''"
proof -
  have t: "TrimSpace ''version: \"1.2.3\" # pinned'' = ''version: \"1.2.3\" # pinned''"
    by code_simp
  have r: "rewriteVersion 0 ''version: \"1.2.3\" # pinned'' ''2.0.0''
      = Some ''version: \"2.0.0\" # pinned''"
    by code_simp
  have i: "indentOf (replicate n (CHR '' '') @ ''version: \"1.2.3\" # pinned'') = n"
    using indentOf_blanks [of "CHR ''v''" n] by simp
  show ?thesis
    unfolding patchedVersionLine_def i TrimSpace_blanks t
    by (subst rewriteVersion_indent) (simp only: r option.map option.case)
qed

lemma patched_unquoted:
  "patchedVersionLine ''2.0.0'' (replicate n (CHR '' '') @ ''version: 1.2.3'')
     = replicate n (CHR '' '') @ ''version: 2.0.0''"
proof -
  have t: "TrimSpace ''version: 1.2.3'' = ''version: 1.2.3''"
    by code_simp
  have r: "rewriteVersion 0 ''version: 1.2.3'' ''2.0.0'' = Some ''version: 2.0.0''"
    by code_simp
  have i: "indentOf (replicate n (CHR '' '') @ ''version: 1.2.3'') = n"
    using indentOf_blanks [of "CHR ''v''" n] by simp
  show ?thesis
    unfolding patchedVersionLine_def i TrimSpace_blanks t
    by (subst rewriteVersion_indent) (simp only: r option.map option.case)
qed

text \<open>
  Claim C1. When the first pass for a release reaches, with the Chart scope of that release
  open, the line \<open>version: "1.2.3" # pinned\<close> indented by any number of blanks, and the new
  version is \<open>2.0.0\<close>, the line becomes \<open>version: "2.0.0" # pinned\<close> with the same
  indent; the line \<open>version: 1.2.3\<close> becomes \<open>version: 2.0.0\<close>, without quotes.
\<close>

theorem quotes_and_comment_kept:
  assumes "inRelease (release_run relName ''2.0.0'' release_init pre)"
    and "inChart (release_run relName ''2.0.0'' release_init pre)"
  shows "releasePass (relName, ''2.0.0'')
           (pre @ (replicate n (CHR '' '') @ ''version: \"1.2.3\" # pinned'') # post) ! length pre
         = replicate n (CHR '' '') @ ''version: \"2.0.0\" # pinned''
       \<and> releasePass (relName, ''2.0.0'')
           (pre @ (replicate n (CHR '' '') @ ''version: 1.2.3'') # post) ! length pre
         = replicate n (CHR '' '') @ ''version: 2.0.0''"
proof -
  have "isVersionLine (replicate n (CHR '' '') @ ''version: \"1.2.3\" # pinned'')"
    using TrimSpace_version [of n "'' \"1.2.3\" # pinned''"] by (simp add: isVersionLine_def)
  moreover have "isVersionLine (replicate n (CHR '' '') @ ''version: 1.2.3'')"
    using TrimSpace_version [of n "'' 1.2.3''"] by (simp add: isVersionLine_def)
  ultimately show ?thesis
    using assms by (simp only: releasePass_at patched_quoted patched_unquoted)
qed

theorem quotes_and_comment_kept_witness:
  "releasePass (''app'', ''2.0.0'')
     ([''- name: app'', ''  chart:''] @ (replicate 4 (CHR '' '') @ ''version: \"1.2.3\" # pinned'') # [])
     ! length [''- name: app'', ''  chart:'']
   = replicate 4 (CHR '' '') @ ''version: \"2.0.0\" # pinned''
   \<and> releasePass (''app'', ''2.0.0'')
     ([''- name: app'', ''  chart:''] @ (replicate 4 (CHR '' '') @ ''version: 1.2.3'') # [])
     ! length [''- name: app'', ''  chart:'']
   = replicate 4 (CHR '' '') @ ''version: 2.0.0''"
proof -
  have h1: "inRelease (release_run ''app'' ''2.0.0'' release_init [''- name: app'', ''  chart:''])"
    by code_simp
  have h2: "inChart (release_run ''app'' ''2.0.0'' release_init [''- name: app'', ''  chart:''])"
    by code_simp
  from quotes_and_comment_kept [OF h1 h2] show ?thesis .
qed

section \<open>Absent keys and two failing inputs\<close>

text \<open>A pass for a release that no \<open>- name:\<close> line names never opens a scope.\<close>

lemma release_step_absent:
  assumes "\<not> inRelease st" "\<not> namesRelease relName line"
  shows "release_step relName newVer st line = (st, line)"
  using assms by (auto simp: release_step_def namesRelease_def Let_def)

lemma release_loop_absent:
  "\<not> inRelease st \<Longrightarrow> \<forall>l\<in>set ls. \<not> namesRelease relName l \<Longrightarrow>
   release_loop relName newVer st ls = ls"
  by (induction ls) (simp_all add: release_step_absent)

lemma fold_releasePass_absent:
  "\<forall>kv\<in>set vm. \<forall>l\<in>set ls. \<not> namesRelease (fst kv) l \<Longrightarrow> fold releasePass vm ls = ls"
proof (induction vm)
  case Nil
  show ?case by simp
next
  case (Cons kv vm)
  then have "releasePass kv ls = ls"
    by (simp add: releasePass_def release_loop_absent release_init_def)
  with Cons show ?case by simp
qed

lemma up_to_date_line_kept:
  "extractedVersion line = newVer \<Longrightarrow> patchedVersionLine newVer line = line"
  by (simp add: patchedVersionLine_def extractedVersion_def rewriteVersion_def Let_def)

text \<open>
  Claim C2. A line whose extracted value equals the new version is left unchanged
  (\<open>up_to_date_line_kept\<close>), but the extracted value of a \<open>version:\<close> line with a trailing
  comment contains the comment, so such a line never counts as up to date and is written
  again: the release \<open>a\<close> has version \<open>1.2.3\<close>, the mapping asks for \<open>1.2.3\<close>, and the
  output differs from the input (one blank before the comment instead of two).
\<close>

theorem same_version_with_comment_rewritten:
  "extractedVersion ''    version: 1.2.3  # pinned'' = ''1.2.3  # pinned''
   \<and> updateFileText ''- name: a\<newline>  chart:\<newline>    version: 1.2.3  # pinned''
        [(''a'', ''1.2.3'')] []
     = ''- name: a\<newline>  chart:\<newline>    version: 1.2.3 # pinned''
   \<and> updateFileText ''- name: a\<newline>  chart:\<newline>    version: 1.2.3  # pinned''
        [(''a'', ''1.2.3'')] []
     \<noteq> ''- name: a\<newline>  chart:\<newline>    version: 1.2.3  # pinned''"
  by code_simp

text \<open>
  Claim C6. An anchor line that follows an anchor still open only closes that anchor (the
  iteration ends with \<open>continue\<close>) and opens none, so the \<open>chart:\<close> block under it is not
  scanned: the request for \<open>r/b\<close> changes nothing, although the anchor \<open>.b\<close> records the
  chart name \<open>r/b\<close>.
\<close>

theorem second_anchor_not_patched:
  "updateFileText
     ''.a:\<newline> chart:\<newline>  name: r/a\<newline>  version: 1\<newline>.b:\<newline> chart:\<newline>  name: r/b\<newline>  version: 1''
     [] [(''r/b'', ''2'')]
   = ''.a:\<newline> chart:\<newline>  name: r/a\<newline>  version: 1\<newline>.b:\<newline> chart:\<newline>  name: r/b\<newline>  version: 1''"
  by code_simp

section \<open>Removing a section\<close>

lemma stripLoop_keep:
  "\<forall>l\<in>set pre. \<not> isHeader section l \<Longrightarrow>
   stripLoop section False k (pre @ ls) = pre @ stripLoop section False k ls"
  by (induction pre) (simp_all add: isHeader_def)

lemma stripLoop_no_header:
  "\<forall>l\<in>set ls. \<not> isHeader section l \<Longrightarrow> stripLoop section False k ls = ls"
  using stripLoop_keep [of ls "section" k "[]"] by simp

lemma stripLoop_skip:
  "\<forall>l\<in>set body. skippedLine k l \<Longrightarrow>
   stripLoop section True k (body @ ls) = stripLoop section True k ls"
  by (induction body) (auto simp: skippedLine_def)

lemma stripLoop_after:
  "afterSection k section rest \<Longrightarrow> stripLoop section True k rest = rest"
  by (cases rest) (auto simp: afterSection_def skippedLine_def stripLoop_no_header)

lemma stripLoop_section:
  assumes "\<forall>l\<in>set pre. \<not> isHeader section l" "isHeader section hdr"
    "\<forall>l\<in>set body. skippedLine (indentOf hdr) l" "afterSection (indentOf hdr) section rest"
  shows "stripLoop section False k (pre @ hdr # body @ rest) = pre @ rest"
proof -
  have "stripLoop section False k (hdr # body @ rest)
      = stripLoop section True (indentOf hdr) (body @ rest)"
    using assms(2) by (simp add: isHeader_def)
  also have "\<dots> = rest"
    using assms(3,4) by (simp add: stripLoop_skip stripLoop_after)
  finally show ?thesis using assms(1) by (simp add: stripLoop_keep)
qed

text \<open>
  Claim C7. If no line of the text starts the section, \<open>removeTopLevelSection\<close> returns the
  text. If the text consists of lines \<open>pre\<close> without a header, a header, lines \<open>body\<close> that
  are blank or indented more than the header, and then either nothing or a line that is
  neither (followed by no further header), the result is \<open>pre\<close> and \<open>rest\<close>, unchanged:
  what is removed is the header and every line up to the first later line that is not blank
  and has at most the header's indent. Blank lines that follow the last indented line of
  the section are removed with it.
\<close>

theorem strip_section:
  "((\<forall>l\<in>set (Split text). \<not> isHeader section l)
      \<longrightarrow> removeTopLevelSection text section = text)
   \<and> ((\<forall>l\<in>set (pre @ hdr # body @ rest). LF \<notin> set l)
        \<and> (\<forall>l\<in>set pre. \<not> isHeader section l) \<and> isHeader section hdr
        \<and> (\<forall>l\<in>set body. skippedLine (indentOf hdr) l)
        \<and> afterSection (indentOf hdr) section rest
      \<longrightarrow> removeTopLevelSection (Join (pre @ hdr # body @ rest)) section = Join (pre @ rest))"
proof (intro conjI impI)
  assume "\<forall>l\<in>set (Split text). \<not> isHeader section l"
  then show "removeTopLevelSection text section = text"
    by (simp add: removeTopLevelSection_def stripLoop_no_header Join_Split)
next
  assume a: "(\<forall>l\<in>set (pre @ hdr # body @ rest). LF \<notin> set l)
        \<and> (\<forall>l\<in>set pre. \<not> isHeader section l) \<and> isHeader section hdr
        \<and> (\<forall>l\<in>set body. skippedLine (indentOf hdr) l)
        \<and> afterSection (indentOf hdr) section rest"
  then have "Split (Join (pre @ hdr # body @ rest)) = pre @ hdr # body @ rest"
    by (intro Split_Join) simp_all
  moreover from a have "stripLoop section False 0 (pre @ hdr # body @ rest) = pre @ rest"
    by (intro stripLoop_section) simp_all
  ultimately show "removeTopLevelSection (Join (pre @ hdr # body @ rest)) section
      = Join (pre @ rest)"
    by (simp add: removeTopLevelSection_def)
qed

theorem strip_section_witness:
  "removeTopLevelSection ''a: 1\<newline>b: 2'' ''repositories'' = ''a: 1\<newline>b: 2''
   \<and> removeTopLevelSection (Join ([''a: 1''] @ ''repositories:'' # [''  - x'', ''''] @ [''releases:'']))
        ''repositories''
     = Join ([''a: 1''] @ [''releases:''])"
proof -
  have h1: "\<forall>l\<in>set (Split ''a: 1\<newline>b: 2''). \<not> isHeader ''repositories'' l"
    by code_simp
  have h2: "(\<forall>l\<in>set ([''a: 1''] @ ''repositories:'' # [''  - x'', ''''] @ [''releases:'']). LF \<notin> set l)
        \<and> (\<forall>l\<in>set [''a: 1'']. \<not> isHeader ''repositories'' l)
        \<and> isHeader ''repositories'' ''repositories:''
        \<and> (\<forall>l\<in>set [''  - x'', '''']. skippedLine (indentOf ''repositories:'') l)
        \<and> afterSection (indentOf ''repositories:'') ''repositories'' [''releases:'']"
    by code_simp
  from strip_section [of "''a: 1\<newline>b: 2''" "''repositories''"] h1
  have 1: "removeTopLevelSection ''a: 1\<newline>b: 2'' ''repositories'' = ''a: 1\<newline>b: 2''"
    by blast
  from strip_section [of _ "''repositories''" "[''a: 1'']" "''repositories:''"
      "[''  - x'', '''']" "[''releases:'']"] h2
  have 2: "removeTopLevelSection
      (Join ([''a: 1''] @ ''repositories:'' # [''  - x'', ''''] @ [''releases:'']))
        ''repositories''
     = Join ([''a: 1''] @ [''releases:''])"
    by blast
  from 1 2 show ?thesis by (rule conjI)
qed

theorem strip_section_counterexample:
  "indentOf (Split ''repositories:\<newline>  - x\<newline>\<newline>releases:'' ! 0)
     < indentOf (Split ''repositories:\<newline>  - x\<newline>\<newline>releases:'' ! 1)
   \<and> indentOf (Split ''repositories:\<newline>  - x\<newline>\<newline>releases:'' ! 2) = 0
   \<and> indentOf (Split ''repositories:\<newline>  - x\<newline>\<newline>releases:'' ! 3) = 0
   \<and> removeTopLevelSection ''repositories:\<newline>  - x\<newline>\<newline>releases:'' ''repositories''
     \<noteq> Join (drop 2 (Split ''repositories:\<newline>  - x\<newline>\<newline>releases:''))"
  by code_simp

section \<open>Order of the passes\<close>

text \<open>Passes for two different releases never have their Release scopes open on the same
  line, so they rewrite different lines and commute.\<close>

lemma inRelease_after_step:
  assumes "inRelease (fst (release_step relName newVer st line))"
  shows "namesRelease relName line
    \<or> (inRelease st \<and> \<not> HasPrefix (TrimSpace line) ''- name:'')"
  using assms
  by (auto simp: release_step_def namesRelease_def Let_def split: if_splits option.splits)

lemma release_steps_disjoint:
  assumes "a \<noteq> b" "\<not> (inRelease sa \<and> inRelease sb)"
  shows "\<not> (inRelease (fst (release_step a va sa l)) \<and> inRelease (fst (release_step b vb sb l)))"
  using assms inRelease_after_step [of a va sa l] inRelease_after_step [of b vb sb l]
  by (auto simp: namesRelease_def)

lemma release_steps_commute:
  assumes "\<not> (inRelease sa \<and> inRelease sb)"
  shows "snd (release_step a va sa (snd (release_step b vb sb l)))
       = snd (release_step b vb sb (snd (release_step a va sa l)))"
  using assms by (auto simp: release_step_line)

lemma release_loops_commute:
  assumes "a \<noteq> b" "\<not> (inRelease sa \<and> inRelease sb)"
  shows "release_loop a va sa (release_loop b vb sb ls)
       = release_loop b vb sb (release_loop a va sa ls)"
  using assms(2)
proof (induction ls arbitrary: sa sb)
  case Nil
  show ?case by simp
next
  case (Cons l ls)
  obtain sa' la where a: "release_step a va sa l = (sa', la)"
    by (cases "release_step a va sa l")
  obtain sb' lb where b: "release_step b vb sb l = (sb', lb)"
    by (cases "release_step b vb sb l")
  have sha: "sameShape l la" using release_step_sameShape [of l a va sa] a by simp
  have shb: "sameShape l lb" using release_step_sameShape [of l b vb sb] b by simp
  have 1: "fst (release_step a va sa lb) = sa'"
    using release_step_state_shape [OF shb, of a va sa va] a by simp
  have 2: "fst (release_step b vb sb la) = sb'"
    using release_step_state_shape [OF sha, of b vb sb vb] b by simp
  have 3: "snd (release_step a va sa lb) = snd (release_step b vb sb la)"
    using release_steps_commute [OF Cons.prems, of a va b vb l] a b by simp
  have 4: "\<not> (inRelease sa' \<and> inRelease sb')"
    using release_steps_disjoint [OF assms(1) Cons.prems, of va l vb] a b by simp
  define lab where "lab = snd (release_step a va sa lb)"
  have "release_step a va sa lb = (sa', lab)"
    using 1 unfolding lab_def by (metis prod.collapse)
  moreover have "release_step b vb sb la = (sb', lab)"
    using 2 3 unfolding lab_def by (metis prod.collapse)
  ultimately show ?case
    using a b Cons.IH [OF 4] by simp
qed

lemma releasePass_commute:
  assumes "fst x \<noteq> fst y"
  shows "releasePass x \<circ> releasePass y = releasePass y \<circ> releasePass x"
proof
  fix ls
  show "(releasePass x \<circ> releasePass y) ls = (releasePass y \<circ> releasePass x) ls"
    using release_loops_commute [OF assms, of release_init release_init "snd x" "snd y" ls]
    by (simp add: releasePass_def release_init_def)
qed

lemma fold_releasePass_permuted:
  assumes "distinct (map fst vm)" "mset vm = mset vm'"
  shows "fold releasePass vm = fold releasePass vm'"
proof (rule fold_multiset_equiv [OF _ assms(2)])
  fix x y
  assume "x \<in> set vm" "y \<in> set vm"
  show "releasePass x \<circ> releasePass y = releasePass y \<circ> releasePass x"
  proof (cases "x = y")
    case True
    then show ?thesis by simp
  next
    case False
    with assms(1) \<open>x \<in> set vm\<close> \<open>y \<in> set vm\<close> have "fst x \<noteq> fst y"
      by (meson distinct_map inj_onD)
    then show ?thesis by (rule releasePass_commute)
  qed
qed

text \<open>
  Claim C10. The entries of a Go map have distinct keys. For two enumerations of the same
  release mapping and one enumeration of the chart mapping, \<open>updateFileText\<close> returns the
  same text. The passes of the second loop do not commute in general: two of them can
  rewrite the same line, and the later one wins.
\<close>

theorem release_order_irrelevant:
  assumes "distinct (map fst versionMap)" "mset versionMap' = mset versionMap"
  shows "updateFileText original versionMap chartVersionMap
       = updateFileText original versionMap' chartVersionMap"
  using fold_releasePass_permuted [OF assms(1) assms(2) [symmetric]]
  by (simp add: updateFileText_def patchLines_def)

theorem release_order_irrelevant_witness:
  "updateFileText ''- name: a\<newline>chart:\<newline>version: 1\<newline>- name: b\<newline>chart:\<newline>version: 1''
      [(''a'', ''2''), (''b'', ''3'')] []
   = updateFileText ''- name: a\<newline>chart:\<newline>version: 1\<newline>- name: b\<newline>chart:\<newline>version: 1''
      [(''b'', ''3''), (''a'', ''2'')] []"
proof -
  have h1: "distinct (map fst [(''a'', ''2''), (''b'', ''3'')])" by simp
  have h2: "mset [(''b'', ''3''), (''a'', ''2'')] = mset [(''a'', ''2''), (''b'', ''3'')]"
    by simp
  from release_order_irrelevant [OF h1 h2] show ?thesis .
qed

theorem chart_order_counterexample:
  "updateFileText
     ''.x:\<newline> chart:\<newline>  name: K\<newline>  version: 1\<newline>  .y:\<newline>   chart:\<newline>    name: K\<newline>  # c\<newline>    name: L\<newline>   chart:\<newline>    version: 1''
     [] [(''K'', ''2''), (''L'', ''3'')]
   \<noteq> updateFileText
     ''.x:\<newline> chart:\<newline>  name: K\<newline>  version: 1\<newline>  .y:\<newline>   chart:\<newline>    name: K\<newline>  # c\<newline>    name: L\<newline>   chart:\<newline>    version: 1''
     [] [(''L'', ''3''), (''K'', ''2'')]"
  by code_simp

section \<open>Trimming twice\<close>

text \<open>Trimming twice is trimming once.\<close>

lemma firstSpaceWidth_TrimLeftSpace: "firstSpaceWidth (TrimLeftSpace s) = 0"
proof (induction s rule: TrimLeftSpace.induct)
  case (1 s)
  then show ?case by (cases "firstSpaceWidth s = 0") (simp_all add: TrimLeftSpace.simps [of s])
qed

lemma lastSpaceWidth_TrimRightSpace: "lastSpaceWidth (TrimRightSpace s) = 0"
proof (induction s rule: TrimRightSpace.induct)
  case (1 s)
  then show ?case by (cases "lastSpaceWidth s = 0") (simp_all add: TrimRightSpace.simps [of s])
qed

lemma TrimRightSpace_prefix: "prefix (TrimRightSpace s) s"
proof (induction s rule: TrimRightSpace.induct)
  case (1 s)
  show ?case
  proof (cases "lastSpaceWidth s = 0")
    case True
    then show ?thesis by (simp add: TrimRightSpace.simps [of s])
  next
    case False
    with 1 have "prefix (TrimRightSpace (take (length s - lastSpaceWidth s) s))
        (take (length s - lastSpaceWidth s) s)"
      by simp
    then have "prefix (TrimRightSpace (take (length s - lastSpaceWidth s) s)) s"
      using take_is_prefix prefix_order.trans by blast
    with False show ?thesis by (simp add: TrimRightSpace.simps [of s])
  qed
qed

lemma firstSpaceWidth_prefix:
  assumes "firstSpaceWidth t = 0" "prefix u t"
  shows "firstSpaceWidth u = 0"
proof (rule ccontr)
  assume "firstSpaceWidth u \<noteq> 0"
  then obtain r where "find (\<lambda>r. prefix r u) spaceRunes = Some r"
    by (auto simp: firstSpaceWidth_def split: option.splits)
  then have r: "r \<in> set spaceRunes" "prefix r u"
    by (auto simp: find_Some_iff)
  with assms(2) have "prefix r t" by auto
  with r(1) have "find (\<lambda>r. prefix r t) spaceRunes \<noteq> None"
    by (auto simp: find_None_iff)
  then obtain r' where f: "find (\<lambda>r. prefix r t) spaceRunes = Some r'"
    by auto
  then have "r' \<in> set spaceRunes" by (auto simp: find_Some_iff)
  then have "r' \<noteq> []" by (auto simp: spaceRunes_def)
  with f assms(1) show False by (simp add: firstSpaceWidth_def)
qed

lemma TrimSpace_idem: "TrimSpace (TrimSpace s) = TrimSpace s"
proof -
  let ?u = "TrimRightSpace (TrimLeftSpace s)"
  have "firstSpaceWidth ?u = 0"
    using firstSpaceWidth_prefix [OF firstSpaceWidth_TrimLeftSpace TrimRightSpace_prefix] .
  then have "TrimLeftSpace ?u = ?u" by (simp add: TrimLeftSpace.simps [of ?u])
  moreover have "TrimRightSpace ?u = ?u"
    using lastSpaceWidth_TrimRightSpace [of "TrimLeftSpace s"]
    by (simp add: TrimRightSpace.simps [of ?u])
  ultimately show ?thesis by (simp add: TrimSpace_def)
qed

section \<open>Sequence items of a release\<close>

text \<open>The first pass over a sequence item of the release, from any state.\<close>

lemma release_run_append:
  "release_run relName newVer st (xs @ ys)
     = release_run relName newVer (release_run relName newVer st xs) ys"
  by (induction xs arbitrary: st) simp_all

lemma release_step_names:
  "namesRelease relName n \<Longrightarrow>
   fst (release_step relName newVer st n) = st\<lparr>inRelease := True, inChart := False\<rparr>"
  by (simp add: release_step_def namesRelease_def)

lemma release_step_plain:
  "inRelease st \<Longrightarrow> \<not> inChart st \<Longrightarrow> plainLine l \<Longrightarrow>
   fst (release_step relName newVer st l) = st"
  by (simp add: release_step_def plainLine_def TrimSpace_idem Let_def)

lemma release_run_plain:
  "inRelease st \<Longrightarrow> \<not> inChart st \<Longrightarrow> \<forall>l\<in>set g. plainLine l \<Longrightarrow>
   release_run relName newVer st g = st"
  by (induction g) (simp_all add: release_step_plain)

lemma chart_not_name: "\<not> HasPrefix ''chart:'' ''- name:''"
  by (simp add: HasPrefix_def)

lemma release_step_chart:
  "inRelease st \<Longrightarrow> TrimSpace c = ''chart:'' \<Longrightarrow>
   fst (release_step relName newVer st c) = st\<lparr>inChart := True, chartIndent := indentOf c\<rparr>"
  using TrimSpace_idem [of c] chart_not_name
  by (simp add: release_step_def Let_def HasPrefix_def)

lemma release_step_child:
  "inRelease st \<Longrightarrow> inChart st \<Longrightarrow> chartIndent st = indentOf c \<Longrightarrow> chartChild c l \<Longrightarrow>
   fst (release_step relName newVer st l) = st"
  by (simp add: release_step_def chartChild_def plainLine_def isVersionLine_def
      TrimSpace_idem Let_def)

lemma release_run_children:
  "inRelease st \<Longrightarrow> inChart st \<Longrightarrow> chartIndent st = indentOf c \<Longrightarrow>
   \<forall>l\<in>set h. chartChild c l \<Longrightarrow> release_run relName newVer st h = st"
  by (induction h) (simp_all add: release_step_child)

lemma release_run_item:
  assumes "releaseItem relName n g c h v"
  shows "inRelease (release_run relName newVer st (n # g @ c # h))
    \<and> inChart (release_run relName newVer st (n # g @ c # h))"
proof -
  let ?s1 = "st\<lparr>inRelease := True, inChart := False\<rparr>"
  let ?s2 = "?s1\<lparr>inChart := True, chartIndent := indentOf c\<rparr>"
  from assms have n: "namesRelease relName n" and g: "\<forall>l\<in>set g. plainLine l"
    and c: "TrimSpace c = ''chart:''" and h: "\<forall>l\<in>set h. chartChild c l"
    by (simp_all add: releaseItem_def)
  have "release_run relName newVer st (n # g @ c # h)
      = release_run relName newVer (release_run relName newVer ?s1 g) (c # h)"
    using n by (simp add: release_step_names release_run_append)
  also have "release_run relName newVer ?s1 g = ?s1"
    using g by (intro release_run_plain) simp_all
  also have "release_run relName newVer ?s1 (c # h) = release_run relName newVer ?s2 h"
    using c by (simp add: release_step_chart)
  also have "\<dots> = ?s2"
    using h by (intro release_run_children [where c = c]) simp_all
  finally show ?thesis by simp
qed

text \<open>
  Claim C5. In a buffer that holds two sequence items of the release, whatever stands
  before, between and after them, the pass for the release puts the patched line in place
  of the \<open>version:\<close> line of both items, provided each item has this shape: its
  \<open>- name:\<close> line; then lines that are neither \<open>- name:\<close> lines nor a bare \<open>chart:\<close>
  line; then a bare \<open>chart:\<close> line; then lines indented more than that line which are
  neither \<open>- name:\<close> lines, nor a bare \<open>chart:\<close> line, nor \<open>version:\<close> lines; then the
  \<open>version:\<close> line. The same holds for each further item, since \<open>release_run_item\<close>
  starts from any state. An item with a blank line in its chart block, or with a
  \<open>- name:\<close> entry of another list between its name and its \<open>chart:\<close> line, is not
  updated.
\<close>

theorem both_occurrences_updated:
  assumes "releaseItem relName n1 g1 c1 h1 v1" and "releaseItem relName n2 g2 c2 h2 v2"
  shows "patchLines (A @ (n1 # g1 @ c1 # h1 @ [v1]) @ B @ (n2 # g2 @ c2 # h2 @ [v2]) @ C)
            [(relName, newVer)] [] ! length (A @ n1 # g1 @ c1 # h1)
           = patchedVersionLine newVer v1
       \<and> patchLines (A @ (n1 # g1 @ c1 # h1 @ [v1]) @ B @ (n2 # g2 @ c2 # h2 @ [v2]) @ C)
            [(relName, newVer)] [] ! length (A @ (n1 # g1 @ c1 # h1 @ [v1]) @ B @ n2 # g2 @ c2 # h2)
           = patchedVersionLine newVer v2"
proof -
  let ?p1 = "A @ n1 # g1 @ c1 # h1"
  let ?p2 = "A @ (n1 # g1 @ c1 # h1 @ [v1]) @ B @ n2 # g2 @ c2 # h2"
  let ?lines = "A @ (n1 # g1 @ c1 # h1 @ [v1]) @ B @ (n2 # g2 @ c2 # h2 @ [v2]) @ C"
  have v: "isVersionLine v1" "isVersionLine v2"
    using assms by (simp_all add: releaseItem_def)
  have s1: "inRelease (release_run relName newVer release_init ?p1)
      \<and> inChart (release_run relName newVer release_init ?p1)"
    using release_run_item [OF assms(1)] by (simp add: release_run_append)
  have "release_run relName newVer release_init ?p2
      = release_run relName newVer
          (release_run relName newVer release_init (A @ (n1 # g1 @ c1 # h1 @ [v1]) @ B))
          (n2 # g2 @ c2 # h2)"
    using release_run_append [of relName newVer release_init
        "A @ (n1 # g1 @ c1 # h1 @ [v1]) @ B" "n2 # g2 @ c2 # h2"]
    by simp
  then have s2: "inRelease (release_run relName newVer release_init ?p2)
      \<and> inChart (release_run relName newVer release_init ?p2)"
    using release_run_item [OF assms(2)] by simp
  have l1: "?lines = ?p1 @ v1 # (B @ (n2 # g2 @ c2 # h2 @ [v2]) @ C)" by simp
  have l2: "?lines = ?p2 @ v2 # C" by simp
  have "releasePass (relName, newVer) ?lines ! length ?p1 = patchedVersionLine newVer v1"
    unfolding l1 using s1 v(1) by (intro releasePass_at) simp_all
  moreover have "releasePass (relName, newVer) ?lines ! length ?p2 = patchedVersionLine newVer v2"
    unfolding l2 using s2 v(2) by (intro releasePass_at) simp_all
  ultimately show ?thesis by (simp add: patchLines_def)
qed

theorem both_occurrences_updated_witness:
  "patchLines ([''releases:''] @ (''- name: app'' # [] @ '' chart:'' # [''  name: r/app''] @ [''  version: 1.0.0''])
        @ [] @ (''- name: app'' # [''  ns: x''] @ '' chart:'' # [] @ [''  version: 1.5.0'']) @ [])
     [(''app'', ''3.0.0'')] [] ! length ([''releases:''] @ ''- name: app'' # [] @ '' chart:'' # [''  name: r/app''])
     = ''  version: 3.0.0''
   \<and> patchLines ([''releases:''] @ (''- name: app'' # [] @ '' chart:'' # [''  name: r/app''] @ [''  version: 1.0.0''])
        @ [] @ (''- name: app'' # [''  ns: x''] @ '' chart:'' # [] @ [''  version: 1.5.0'']) @ [])
     [(''app'', ''3.0.0'')] []
       ! length ([''releases:''] @ (''- name: app'' # [] @ '' chart:'' # [''  name: r/app''] @ [''  version: 1.0.0''])
        @ [] @ ''- name: app'' # [''  ns: x''] @ '' chart:'' # [])
     = ''  version: 3.0.0''"
proof -
  have h1: "releaseItem ''app'' ''- name: app'' [] '' chart:'' [''  name: r/app''] ''  version: 1.0.0''"
    by code_simp
  have h2: "releaseItem ''app'' ''- name: app'' [''  ns: x''] '' chart:'' [] ''  version: 1.5.0''"
    by code_simp
  have e1: "patchedVersionLine ''3.0.0'' ''  version: 1.0.0'' = ''  version: 3.0.0''"
    by code_simp
  have e2: "patchedVersionLine ''3.0.0'' ''  version: 1.5.0'' = ''  version: 3.0.0''"
    by code_simp
  from both_occurrences_updated [OF h1 h2, of "[''releases:'']" "[]" "[]" "''3.0.0''"]
  show ?thesis unfolding e1 e2 .
qed

theorem both_occurrences_counterexample:
  "updateFileText
     ''- name: app\<newline>  chart:\<newline>\<newline>    version: 1\<newline>- name: app\<newline>  chart:\<newline>    version: 1''
     [(''app'', ''3'')] []
   = ''- name: app\<newline>  chart:\<newline>\<newline>    version: 1\<newline>- name: app\<newline>  chart:\<newline>    version: 3''
   \<and> updateFileText
     ''- name: app\<newline>  depends_on:\<newline>    - name: db\<newline>  chart:\<newline>    version: 1\<newline>- name: app\<newline>  chart:\<newline>    version: 1''
     [(''app'', ''3'')] []
   = ''- name: app\<newline>  depends_on:\<newline>    - name: db\<newline>  chart:\<newline>    version: 1\<newline>- name: app\<newline>  chart:\<newline>    version: 3''"
  by code_simp

section \<open>Closing a Chart scope\<close>




lemma release_step_inChart:
  assumes "inRelease st" "inChart st"
  shows "inChart (fst (release_step relName newVer st line))
    \<longleftrightarrow> \<not> HasPrefix (TrimSpace line) ''- name:''
        \<and> (TrimSpace line = ''chart:''
           \<or> (chartIndent st < indentOf line \<and> \<not> isVersionLine line))"
proof (cases "HasPrefix (TrimSpace line) ''- name:''")
  case True
  with assms show ?thesis by (simp add: release_step_def Let_def)
next
  case False
  show ?thesis
  proof (cases "TrimSpace line = ''chart:''")
    case True
    have "TrimSpace ''chart:'' = ''chart:''"
      using TrimSpace_idem [of line] True by simp
    with True False assms show ?thesis
      by (simp add: release_step_def Let_def HasPrefix_def)
  next
    case c: False
    with False assms show ?thesis
      by (auto simp: release_step_def TrimSpace_idem Let_def isVersionLine_def
          split: option.splits)
  qed
qed

section \<open>Names as pieces of a line\<close>

text \<open>The name that the code reads from a \<open>- name:\<close> line is a piece of that line.\<close>

lemma sublist_trans:
  assumes "sublist xs ys" "sublist ys zs"
  shows "sublist xs zs"
proof -
  from assms obtain a b c d where "ys = a @ xs @ b" "zs = c @ ys @ d"
    unfolding sublist_def by blast
  then have "zs = (c @ a) @ xs @ (b @ d)" by simp
  then show ?thesis using sublist_appendI by metis
qed

lemma sublist_TrimLeftSpace: "sublist (TrimLeftSpace s) s"
proof (induction s rule: TrimLeftSpace.induct)
  case (1 s)
  show ?case
  proof (cases "firstSpaceWidth s = 0")
    case True
    then show ?thesis by (simp add: TrimLeftSpace.simps [of s])
  next
    case False
    with 1 have "sublist (TrimLeftSpace (drop (firstSpaceWidth s) s)) (drop (firstSpaceWidth s) s)"
      by simp
    then have "sublist (TrimLeftSpace (drop (firstSpaceWidth s) s)) s"
      using sublist_drop by (rule sublist_trans)
    with False show ?thesis by (simp add: TrimLeftSpace.simps [of s])
  qed
qed

lemma sublist_TrimSpace: "sublist (TrimSpace s) s"
proof -
  have "sublist (TrimRightSpace (TrimLeftSpace s)) (TrimLeftSpace s)"
    using TrimRightSpace_prefix [of "TrimLeftSpace s"] by (rule prefix_imp_sublist)
  then show ?thesis
    unfolding TrimSpace_def using sublist_TrimLeftSpace [of s] by (rule sublist_trans)
qed

lemma sublist_TrimPrefix: "sublist (TrimPrefix s p) s"
  by (simp add: TrimPrefix_def)

lemma sublist_TrimRight: "sublist (TrimRight s cutset) s"
proof -
  have "sublist (dropWhile (\<lambda>c. c \<in> set cutset) (rev s)) (rev s)"
    by (rule sublist_dropWhile)
  then have "sublist (rev (dropWhile (\<lambda>c. c \<in> set cutset) (rev s))) (rev (rev s))"
    by (simp only: sublist_rev)
  then show ?thesis by (simp only: TrimRight_def rev_rev_ident)
qed

lemma sublist_Trim: "sublist (Trim s cutset) s"
proof -
  have "sublist (Trim s cutset) (TrimRight s cutset)"
    unfolding Trim_def TrimLeft_def by (rule sublist_dropWhile)
  then show ?thesis using sublist_TrimRight by (rule sublist_trans)
qed

lemma sublist_namePartOf: "sublist (namePartOf t) t"
proof -
  let ?p = "TrimSpace (TrimPrefix t ''- name:'')"
  have p: "sublist ?p t"
    using sublist_TrimSpace sublist_TrimPrefix by (rule sublist_trans)
  have q: "sublist (TrimSpace (take n ?p)) t" for n
  proof -
    have "sublist (TrimSpace (take n ?p)) ?p"
      using sublist_TrimSpace sublist_take by (rule sublist_trans)
    then show ?thesis using p by (rule sublist_trans)
  qed
  show ?thesis
  proof (cases "Index ?p (CHR ''#'') \<ge> 0")
    case True
    then have e: "namePartOf t = Trim (TrimSpace (take (nat (Index ?p (CHR ''#''))) ?p)) [SQ, DQ]"
      by (simp add: namePartOf_def Let_def)
    show ?thesis unfolding e using sublist_Trim q by (rule sublist_trans)
  next
    case False
    then have e: "namePartOf t = Trim ?p [SQ, DQ]"
      by (simp add: namePartOf_def Let_def)
    show ?thesis unfolding e using sublist_Trim p by (rule sublist_trans)
  qed
qed

lemma namesRelease_sublist:
  assumes "namesRelease relName line"
  shows "sublist relName line"
proof -
  from assms have "relName = namePartOf (TrimSpace line)" by (simp add: namesRelease_def)
  moreover have "sublist (namePartOf (TrimSpace line)) line"
    using sublist_namePartOf sublist_TrimSpace by (rule sublist_trans)
  ultimately show ?thesis by simp
qed

text \<open>
  Claim C8. The code takes as the name of a \<open>- name:\<close> line the text after \<open>- name:\<close>,
  trimmed, cut at the first \<open>#\<close>, trimmed again and stripped of quote characters at both
  ends (\<open>namePartOf\<close>). When no line gives a key of the release mapping as its name in this
  way, the release passes change nothing: the result is the one the chart mapping alone
  gives, and with an empty chart mapping it is the input itself. This is so in particular
  when no key of the release mapping occurs as a piece of text in any line of the document.
  The function has no error result.
\<close>

theorem absent_release_is_no_op:
  "((\<forall>kv\<in>set versionMap. \<forall>l\<in>set (Split original). \<not> namesRelease (fst kv) l) \<longrightarrow>
      updateFileText original versionMap chartVersionMap
        = updateFileText original [] chartVersionMap
      \<and> updateFileText original versionMap [] = original)
   \<and> ((\<forall>kv\<in>set versionMap. \<forall>l\<in>set (Split original). \<not> sublist (fst kv) l) \<longrightarrow>
      updateFileText original versionMap chartVersionMap
        = updateFileText original [] chartVersionMap
      \<and> updateFileText original versionMap [] = original)"
proof -
  have 1: "updateFileText original versionMap chartVersionMap
        = updateFileText original [] chartVersionMap
      \<and> updateFileText original versionMap [] = original"
    if "\<forall>kv\<in>set versionMap. \<forall>l\<in>set (Split original). \<not> namesRelease (fst kv) l"
  proof -
    from that have "fold releasePass versionMap (Split original) = Split original"
      by (rule fold_releasePass_absent)
    then show ?thesis by (simp add: updateFileText_def patchLines_def Join_Split)
  qed
  have 2: "\<forall>kv\<in>set versionMap. \<forall>l\<in>set (Split original). \<not> namesRelease (fst kv) l"
    if "\<forall>kv\<in>set versionMap. \<forall>l\<in>set (Split original). \<not> sublist (fst kv) l"
    using that namesRelease_sublist by blast
  from 1 2 show ?thesis by blast
qed

theorem absent_release_is_no_op_witness:
  "updateFileText ''- name: a # b\<newline>chart:\<newline>version: 1'' [(''b'', ''2'')] []
     = ''- name: a # b\<newline>chart:\<newline>version: 1''
   \<and> updateFileText ''- name: a\<newline>chart:\<newline>version: 1'' [(''b'', ''2'')] []
     = ''- name: a\<newline>chart:\<newline>version: 1''"
proof -
  have h1: "\<forall>kv\<in>set [(''b'', ''2'')].
      \<forall>l\<in>set (Split ''- name: a # b\<newline>chart:\<newline>version: 1''). \<not> namesRelease (fst kv) l"
    by code_simp
  have h2: "\<forall>kv\<in>set [(''b'', ''2'')].
      \<forall>l\<in>set (Split ''- name: a\<newline>chart:\<newline>version: 1''). \<not> sublist (fst kv) l"
    by code_simp
  from absent_release_is_no_op [of "[(''b'', ''2'')]" "''- name: a # b\<newline>chart:\<newline>version: 1''" "[]"] h1
  have 1: "updateFileText ''- name: a # b\<newline>chart:\<newline>version: 1'' [(''b'', ''2'')] []
     = ''- name: a # b\<newline>chart:\<newline>version: 1''"
    by blast
  from absent_release_is_no_op [of "[(''b'', ''2'')]" "''- name: a\<newline>chart:\<newline>version: 1''" "[]"] h2
  have 2: "updateFileText ''- name: a\<newline>chart:\<newline>version: 1'' [(''b'', ''2'')] []
     = ''- name: a\<newline>chart:\<newline>version: 1''"
    by blast
  from 1 2 show ?thesis by (rule conjI)
qed

theorem absent_release_counterexample:
  "Trim (TrimSpace (TrimPrefix ''- name: a#b'' ''- name:'')) [SQ, DQ] = ''a#b''
   \<and> namePartOf ''- name: a#b'' = ''a''
   \<and> updateFileText ''- name: a#b\<newline>  chart:\<newline>    version: 1'' [(''a'', ''2'')] []
     = ''- name: a#b\<newline>  chart:\<newline>    version: 2''"
  by code_simp

section \<open>What a line does to the scopes\<close>










section \<open>Scopes read off the document\<close>














end
